theory Spec2Isabelle
  imports Complex_Main "HOL-Library.Sublist"
begin

section \<open>The LCS and smallest-window table of \<open>chamorroSearch.py\<close>\<close>

text \<open>
  \<open>lcs_sw\<close> fills a table \<open>lengths\<close> of triples \<open>(length, begin, end)\<close>.  The
  table has \<open>len(s1) + 1\<close> outer entries, each a list of \<open>len(s2) + 1\<close> triples,
  and is read as \<open>lengths[i][j]\<close>.  The components are Python integers, so they
  are modelled as \<open>int\<close>: the comparisons \<open>re - rb < e - b\<close> subtract without
  truncation.
\<close>

type_synonym cell = "int \<times> int \<times> int"

text \<open>The window span \<open>end - begin\<close> of a triple.\<close>

definition cell_span :: "cell \<Rightarrow> int" where
  "cell_span c = (case c of (l, b, e) \<Rightarrow> e - b)"

text \<open>
  The value stored in \<open>lengths[i+1][j+1]\<close> by one pass of the loop body.  The
  arguments are the index \<open>i\<close>, whether \<open>x == y\<close>, the diagonal triple
  \<open>lengths[i][j]\<close>, the triple \<open>lengths[i+1][j]\<close> (named \<open>rlen, rb, re\<close> in the
  source) and the triple \<open>lengths[i][j+1]\<close> (named \<open>dlen, db, de\<close>).
\<close>

definition new_cell :: "nat \<Rightarrow> bool \<Rightarrow> cell \<Rightarrow> cell \<Rightarrow> cell \<Rightarrow> cell" where
  "new_cell i eq diag r d =
     (case diag of (gl, gb, ge) \<Rightarrow>
      case r of (rlen, rb, re) \<Rightarrow>
      case d of (dlen, db, de) \<Rightarrow>
        if eq then
          (let b = (if gl = 0 then int i else gb);
               l = gl + 1;
               e = int i + 1
           in if rlen = l \<or> dlen = l then
                (if rlen > dlen then
                   (if re - rb < e - b then (rlen, rb, re) else (l, b, e))
                 else if dlen > rlen then
                   (if de - db < e - b then (dlen, db, de) else (l, b, e))
                 else
                   (if re - rb < de - db then (rlen, rb, re) else (dlen, db, de)))
              else (l, b, e))
        else
          (if rlen > dlen then (rlen, rb, re)
           else if dlen > rlen then (dlen, db, de)
           else (if re - rb < de - db then (rlen, rb, re) else (dlen, db, de))))"

text \<open>The loop body: the assignment to \<open>lengths[i+1][j+1]\<close>.\<close>

definition body :: "nat \<Rightarrow> 'a \<Rightarrow> nat \<Rightarrow> 'a \<Rightarrow> cell list list \<Rightarrow> cell list list" where
  "body j y i x lengths =
     lengths[Suc i := (lengths ! Suc i)
        [Suc j := new_cell i (x = y) (lengths ! i ! j) (lengths ! Suc i ! j) (lengths ! i ! Suc j)]]"

text \<open>The inner loop \<open>for i, x in enumerate(s1)\<close> and the outer loop
  \<open>for j, y in enumerate(s2)\<close>.\<close>

definition inner :: "'a list \<Rightarrow> nat \<Rightarrow> 'a \<Rightarrow> cell list list \<Rightarrow> cell list list" where
  "inner s1 j y lengths = fold (\<lambda>(i, x). body j y i x) (enumerate 0 s1) lengths"

definition init_table :: "'a list \<Rightarrow> 'a list \<Rightarrow> cell list list" where
  "init_table s1 s2 = replicate (length s1 + 1) (replicate (length s2 + 1) (0, 0, 0))"

definition table :: "'a list \<Rightarrow> 'a list \<Rightarrow> cell list list" where
  "table s1 s2 = fold (\<lambda>(j, y). inner s1 j y) (enumerate 0 s2) (init_table s1 s2)"

text \<open>
  The result reads \<open>lengths[-1][-1]\<close>: the last triple of the last row.  Both
  lists are non-empty, so the negative indices never fail.
\<close>

definition lcs_sw :: "'a list \<Rightarrow> 'a list \<Rightarrow> int \<times> int" where
  "lcs_sw s1 s2 =
     (case last (last (table s1 s2)) of (l, b, e) \<Rightarrow> (l, e - b))"

section \<open>The spread-penalised score\<close>

text \<open>
  \<open>spread_RO\<close> divides two Python floats, and a float division by zero raises
  \<open>ZeroDivisionError\<close>; the exception is a value of the result type.  The floats
  are modelled by exact rationals: \<open>float(3 * lcs)\<close> and
  \<open>float(len(s1) + len(s2) + wl)\<close> are the integers themselves and the quotient
  is not rounded.
\<close>

datatype error = ZeroDivisionError | KeyError

definition spread_RO :: "'a list \<Rightarrow> 'a list \<Rightarrow> error + rat" where
  "spread_RO s1 s2 =
     (case lcs_sw s1 s2 of (lcs, wl) \<Rightarrow>
        (let numerator = (of_int (3 * lcs) :: rat);
             denominator = (of_int (int (length s1) + int (length s2) + wl) :: rat)
         in if denominator = 0 then Inl ZeroDivisionError
            else Inr (numerator / denominator)))"

section \<open>Normalising a word: \<open>preProcess\<close>\<close>

text \<open>
  The argument is a unicode string, the type of the keys that \<open>json\<close> loads: a
  list of code points.  For such a string \<open>unicode(...)\<close> returns its argument, and
  \<open>word.lower()\<close> maps every code point through the case table of the Python
  runtime.  The table is not part of the program, so it is the parameter
  \<open>lower\<close>.  Every \<open>find\<close> and \<open>replace\<close> of the substitution list is a string
  of one code point, so \<open>word.replace(find, replace)\<close> rewrites single code points.
\<close>

type_synonym ustring = "nat list"

text \<open>
  The substitution list, in the order of the source: U+2019 to the apostrophe,
  the acute-accented vowels e, i, o, u, a to the plain vowels, and U+00D1 to
  U+00F1.
\<close>

definition substitutions :: "(nat \<times> nat) list" where
  "substitutions =
     [(0x2019, 0x27), (0xE9, 0x65), (0xED, 0x69), (0xF3, 0x6F), (0xFA, 0x75),
      (0xE1, 0x61), (0xD1, 0xF1)]"

definition replace_char :: "nat \<Rightarrow> nat \<Rightarrow> ustring \<Rightarrow> ustring" where
  "replace_char old new word = map (\<lambda>c. if c = old then new else c) word"

definition preProcess :: "(nat \<Rightarrow> nat) \<Rightarrow> ustring \<Rightarrow> ustring" where
  "preProcess lower word =
     fold (\<lambda>(old, new) w. replace_char old new w) substitutions (map lower word)"


section \<open>Ranking the dictionary: \<open>search\<close>\<close>

text \<open>
  A dictionary is the list of its items, without repeated keys, in the order in
  which Python iterates over it; the \<open>Counter\<close> made from the scores is taken to
  iterate in the same order, which only decides between entries of equal score.
  The loop over \<open>dictionary.keys()\<close> stops at the first score that raises.
  Scores are the exact rationals of \<open>spread_RO\<close>.
\<close>

fun score_all :: "(nat \<Rightarrow> nat) \<Rightarrow> ustring \<Rightarrow> (ustring \<times> 'v) list \<Rightarrow> error + (ustring \<times> rat) list" where
  "score_all lower q [] = Inr []"
| "score_all lower q ((entry, v) # rest) =
     (case spread_RO (preProcess lower entry) q of
        Inl e \<Rightarrow> Inl e
      | Inr s \<Rightarrow>
          (case score_all lower q rest of
             Inl e \<Rightarrow> Inl e
           | Inr matches \<Rightarrow> Inr ((entry, s) # matches)))"

text \<open>
  \<open>Counter(matches).most_common(n)\<close> is \<open>heapq.nlargest(n, items, key = count)\<close>, which
  the library documents as \<open>sorted(items, key = count, reverse = True)[:n]\<close> and
  which returns the empty list for \<open>n \<le> 0\<close>.  Python's sort is stable, also with
  \<open>reverse = True\<close>, and so is \<open>sort_key\<close>.
\<close>

definition most_common :: "int \<Rightarrow> ('k \<times> rat) list \<Rightarrow> ('k \<times> rat) list" where
  "most_common n items = take (nat n) (sort_key (\<lambda>(k, v). - v) items)"

text \<open>The list comprehension \<open>[{k : dictionary[k]} for k in keys]\<close>; each
  one-entry dictionary is a one-element list.\<close>

fun lookup_all :: "('k \<times> 'v) list \<Rightarrow> 'k list \<Rightarrow> error + ('k \<times> 'v) list list" where
  "lookup_all dictionary [] = Inr []"
| "lookup_all dictionary (k # keys) =
     (case map_of dictionary k of
        None \<Rightarrow> Inl KeyError
      | Some v \<Rightarrow>
          (case lookup_all dictionary keys of
             Inl e \<Rightarrow> Inl e
           | Inr rest \<Rightarrow> Inr ([(k, v)] # rest)))"

definition search :: "(nat \<Rightarrow> nat) \<Rightarrow> ustring \<Rightarrow> (ustring \<times> 'v) list \<Rightarrow> int \<Rightarrow> error + (ustring \<times> 'v) list list" where
  "search lower query dictionary n =
     (let q = preProcess lower query
      in case score_all lower q dictionary of
           Inl e \<Rightarrow> Inl e
         | Inr matches \<Rightarrow> lookup_all dictionary (map fst (most_common n matches)))"

section \<open>The baseline ratio: \<open>ratioTest\<close> and \<open>bestRatio\<close>\<close>

text \<open>
  Both functions call \<open>SequenceMatcher(isjunk = None, autojunk = False)\<close> of
  Python's \<open>difflib\<close>, which belongs to the standard library and not to the
  program.  It is modelled by what its documentation states.  Without junk,
  \<open>find_longest_match(alo, ahi, blo, bhi)\<close> returns \<open>(i, j, k)\<close> with
  \<open>a[i:i+k] == b[j:j+k]\<close> inside \<open>a[alo:ahi]\<close> and \<open>b[blo:bhi]\<close>, where \<open>k\<close> is
  maximal, \<open>i\<close> is minimal for that \<open>k\<close> and \<open>j\<close> is minimal for that \<open>i\<close>, and
  \<open>(alo, blo, 0)\<close> when no block matches.  \<open>get_matching_blocks()\<close> takes that
  block and continues on the pieces to its left and to its right.  \<open>ratio()\<close>
  is \<open>2.0 * M / T\<close>, with \<open>M\<close> the total size of the matching blocks and \<open>T\<close> the
  sum of the two lengths, and \<open>1.0\<close> when \<open>T\<close> is 0.  The float is modelled by
  the exact rational.
\<close>

text \<open>The length of the common prefix of two lists.\<close>

fun match_len :: "'a list \<Rightarrow> 'a list \<Rightarrow> nat" where
  "match_len (x # xs) (y # ys) = (if x = y then Suc (match_len xs ys) else 0)"
| "match_len xs ys = 0"

text \<open>The size of the block that starts at \<open>a[i]\<close> and \<open>b[j]\<close> and stays below
  \<open>ahi\<close> and \<open>bhi\<close>.\<close>

definition block_size :: "'a list \<Rightarrow> 'a list \<Rightarrow> nat \<Rightarrow> nat \<Rightarrow> nat \<Rightarrow> nat \<Rightarrow> nat" where
  "block_size a b ahi bhi i j = match_len (take (ahi - i) (drop i a)) (take (bhi - j) (drop j b))"

text \<open>The pairs \<open>(i, j)\<close> are visited with \<open>i\<close> ascending and then \<open>j\<close> ascending; a
  later pair replaces the best one only when its block is strictly longer.\<close>

definition find_longest_match :: "'a list \<Rightarrow> 'a list \<Rightarrow> nat \<Rightarrow> nat \<Rightarrow> nat \<Rightarrow> nat \<Rightarrow> nat \<times> nat \<times> nat" where
  "find_longest_match a b alo ahi blo bhi =
     fold (\<lambda>(i, j) (besti, bestj, bestsize).
             let k = block_size a b ahi bhi i j
             in if k > bestsize then (i, j, k) else (besti, bestj, bestsize))
          (List.product [alo..<ahi] [blo..<bhi]) (alo, blo, 0)"

text \<open>The bounds on the block found make the recursion over the pieces terminate.\<close>

lemma match_len_le: "match_len xs ys \<le> length xs"
  by (induction xs ys rule: match_len.induct) auto

lemma block_size_le: "block_size a b ahi bhi i j \<le> ahi - i"
  unfolding block_size_def using match_len_le[of "take (ahi - i) (drop i a)"] by simp

lemma match_len_le2: "match_len xs ys \<le> length ys"
  by (induction xs ys rule: match_len.induct) auto

lemma block_size_le2: "block_size a b ahi bhi i j \<le> bhi - j"
  unfolding block_size_def using match_len_le2[of _ "take (bhi - j) (drop j b)"] by simp

lemma fold_invariant:
  assumes "P s" and "\<And>x s. x \<in> set xs \<Longrightarrow> P s \<Longrightarrow> P (f x s)"
  shows "P (fold f xs s)"
  using assms by (induction xs arbitrary: s) auto

lemma find_longest_match_bounds:
  assumes "find_longest_match a b alo ahi blo bhi = (i, j, k)" and "k \<noteq> 0"
  shows "alo \<le> i \<and> i + k \<le> ahi \<and> blo \<le> j \<and> j + k \<le> bhi"
proof -
  let ?P = "\<lambda>(i, j, k). k \<noteq> 0 \<longrightarrow> alo \<le> i \<and> i + k \<le> ahi \<and> blo \<le> j \<and> j + k \<le> bhi"
  have "?P (find_longest_match a b alo ahi blo bhi)"
    unfolding find_longest_match_def
  proof (rule fold_invariant)
    show "?P (alo, blo, 0)" by simp
  next
    fix x s
    assume x: "x \<in> set (List.product [alo..<ahi] [blo..<bhi])" and s: "?P s"
    obtain i j where xij: "x = (i, j)" by (cases x)
    obtain bi bj bk where sb: "s = (bi, bj, bk)" by (cases s)
    have "alo \<le> i" "blo \<le> j" using x xij by auto
    moreover have "block_size a b ahi bhi i j \<noteq> 0 \<Longrightarrow> i + block_size a b ahi bhi i j \<le> ahi"
      using block_size_le[of a b ahi bhi i j] by linarith
    moreover have "block_size a b ahi bhi i j \<noteq> 0 \<Longrightarrow> j + block_size a b ahi bhi i j \<le> bhi"
      using block_size_le2[of a b ahi bhi i j] by linarith
    ultimately show "?P ((\<lambda>(i, j) (besti, bestj, bestsize).
             let k = block_size a b ahi bhi i j
             in if k > bestsize then (i, j, k) else (besti, bestj, bestsize)) x s)"
      using s by (simp add: xij sb Let_def)
  qed
  with assms show ?thesis by simp
qed

text \<open>The total size \<open>M\<close> of the matching blocks of \<open>a[alo:ahi]\<close> and
  \<open>b[blo:bhi]\<close>: the work list of \<open>get_matching_blocks\<close>, written as the
  recursion that the comments of the library describe.\<close>

function matches :: "'a list \<Rightarrow> 'a list \<Rightarrow> nat \<Rightarrow> nat \<Rightarrow> nat \<Rightarrow> nat \<Rightarrow> nat" where
  "matches a b alo ahi blo bhi =
     (case find_longest_match a b alo ahi blo bhi of (i, j, k) \<Rightarrow>
        if k = 0 then 0
        else k + (if alo < i \<and> blo < j then matches a b alo i blo j else 0)
               + (if i + k < ahi \<and> j + k < bhi then matches a b (i + k) ahi (j + k) bhi else 0))"
  by pat_completeness auto
termination
proof (relation "measure (\<lambda>(a, b, alo, ahi, blo, bhi). ahi - alo)")
  show "wf (measure (\<lambda>(a, b, alo, ahi, blo, bhi). ahi - alo))" by simp
next
  fix a b :: "'a list" and alo ahi blo bhi i y j k
  assume "(i, y) = find_longest_match a b alo ahi blo bhi" "(j, k) = y" "k \<noteq> 0"
    and lt: "alo < i \<and> blo < j"
  then have "find_longest_match a b alo ahi blo bhi = (i, j, k)" by simp
  from find_longest_match_bounds[OF this \<open>k \<noteq> 0\<close>] \<open>k \<noteq> 0\<close> lt
  show "((a, b, alo, i, blo, j), (a, b, alo, ahi, blo, bhi))
      \<in> measure (\<lambda>(a, b, alo, ahi, blo, bhi). ahi - alo)"
    by auto
next
  fix a b :: "'a list" and alo ahi blo bhi i y j k
  assume "(i, y) = find_longest_match a b alo ahi blo bhi" "(j, k) = y" "k \<noteq> 0"
    and lt: "i + k < ahi \<and> j + k < bhi"
  then have "find_longest_match a b alo ahi blo bhi = (i, j, k)" by simp
  from find_longest_match_bounds[OF this \<open>k \<noteq> 0\<close>] \<open>k \<noteq> 0\<close> lt
  show "((a, b, i + k, ahi, j + k, bhi), (a, b, alo, ahi, blo, bhi))
      \<in> measure (\<lambda>(a, b, alo, ahi, blo, bhi). ahi - alo)"
    by auto
qed

definition ratio :: "'a list \<Rightarrow> 'a list \<Rightarrow> rat" where
  "ratio a b =
     (let m = matches a b 0 (length a) 0 (length b); t = length a + length b
      in if t \<noteq> 0 then 2 * of_nat m / of_nat t else 1)"

text \<open>\<open>ratioTest\<close> sets \<open>seq1\<close> to the query and \<open>seq2\<close> to the inflected form.\<close>

definition ratioTest :: "'a list \<Rightarrow> 'a list \<Rightarrow> rat" where
  "ratioTest query inflected = ratio query inflected"

text \<open>\<open>bestRatio\<close> sets \<open>seq2\<close> to a word of the first list and \<open>seq1\<close> to a word
  of the second, and keeps the largest ratio seen, starting from \<open>0.0\<close>.\<close>

definition bestRatio :: "'a list list \<Rightarrow> 'a list list \<Rightarrow> rat" where
  "bestRatio wordList1 wordList2 =
     fold (\<lambda>w1 r. fold (\<lambda>w2 r. max (ratio w2 w1) r) wordList2 r) wordList1 0"

section \<open>Specification-level notions used in the proofs\<close>

text \<open>
  The value the loops leave in \<open>lengths[i][j]\<close>, written as a recursion on the two
  indices.  Row \<open>0\<close> and column \<open>0\<close> keep their initial triple; every other entry
  is the value \<open>new_cell\<close> computes from its three neighbours.  The lemma
  \<open>table_nth\<close> below proves that the table built by the loops holds these values.
\<close>

fun cellf :: "'a list \<Rightarrow> 'a list \<Rightarrow> nat \<Rightarrow> nat \<Rightarrow> cell" where
  "cellf s1 s2 0 j = (0, 0, 0)"
| "cellf s1 s2 (Suc i) 0 = (0, 0, 0)"
| "cellf s1 s2 (Suc i) (Suc j) =
     new_cell i (s1 ! i = s2 ! j) (cellf s1 s2 i j) (cellf s1 s2 (Suc i) j) (cellf s1 s2 i (Suc j))"

text \<open>
  The loop invariant: at the start of pass \<open>i\<close> of the inner loop, within pass
  \<open>j\<close> of the outer loop, the table has its full shape, the columns up to \<open>j\<close>
  are final, column \<open>j + 1\<close> is final up to row \<open>i\<close>, and the rest still holds
  the initial triple.
\<close>

definition filled :: "'a list \<Rightarrow> 'a list \<Rightarrow> nat \<Rightarrow> nat \<Rightarrow> cell list list \<Rightarrow> bool" where
  "filled s1 s2 j i L \<longleftrightarrow>
     length L = Suc (length s1) \<and>
     (\<forall>a \<le> length s1. length (L ! a) = Suc (length s2)) \<and>
     (\<forall>a \<le> length s1. \<forall>b \<le> length s2.
        L ! a ! b = (if b \<le> j \<or> (b = Suc j \<and> a \<le> i) then cellf s1 s2 a b else (0, 0, 0)))"

text \<open>What every triple stored at \<open>lengths[i][j]\<close> satisfies.\<close>

definition cell_ok :: "nat \<Rightarrow> nat \<Rightarrow> cell \<Rightarrow> bool" where
  "cell_ok i j c \<longleftrightarrow>
     (case c of (l, b, e) \<Rightarrow>
        0 \<le> l \<and> l \<le> int i \<and> l \<le> int j \<and> 0 \<le> b \<and> b \<le> e \<and> e \<le> int i \<and>
        l \<le> e - b \<and> (l = 0 \<longrightarrow> e = b))"

text \<open>
  Longest common subsequences, stated with \<open>subseq\<close> of the library: \<open>n\<close> is the
  length of a longest common subsequence of \<open>xs\<close> and \<open>ys\<close> when some common
  subsequence has length \<open>n\<close> and none is longer.
\<close>

definition common_subseq :: "'a list \<Rightarrow> 'a list \<Rightarrow> 'a list \<Rightarrow> bool" where
  "common_subseq zs xs ys \<longleftrightarrow> subseq zs xs \<and> subseq zs ys"

definition is_lcs_length :: "nat \<Rightarrow> 'a list \<Rightarrow> 'a list \<Rightarrow> bool" where
  "is_lcs_length n xs ys \<longleftrightarrow>
     (\<exists>zs. common_subseq zs xs ys \<and> length zs = n) \<and>
     (\<forall>zs. common_subseq zs xs ys \<longrightarrow> length zs \<le> n)"

text \<open>
  The slice \<open>s1[b:e]\<close> is a window for \<open>zs\<close>: it lies inside \<open>s1\<close>, it contains
  the characters of \<open>zs\<close> in order, and \<open>zs\<close> is a subsequence of \<open>s2\<close> as well.
\<close>

definition window_holds :: "'a list \<Rightarrow> 'a list \<Rightarrow> nat \<Rightarrow> nat \<Rightarrow> 'a list \<Rightarrow> bool" where
  "window_holds s1 s2 b e zs \<longleftrightarrow>
     b \<le> e \<and> e \<le> length s1 \<and> subseq zs (take (e - b) (drop b s1)) \<and> subseq zs s2"

text \<open>
  The diagonal-extension candidate of the match case: the triple \<open>(l, b, e)\<close>
  that the source builds from \<open>lengths[i][j]\<close> before it looks at the neighbours.
\<close>

definition candidate :: "nat \<Rightarrow> cell \<Rightarrow> cell" where
  "candidate i diag =
     (case diag of (gl, gb, ge) \<Rightarrow> (gl + 1, if gl = 0 then int i else gb, int i + 1))"

text \<open>
  The selection rule as the specification words it: of two triples the one with
  the smaller window span, first between the left and the upper neighbour, then
  between that winner and the candidate.  \<open>narrower c1 c2\<close> is \<open>c1\<close> only when
  its span is strictly smaller, so on equal spans the upper neighbour wins the
  first comparison, as in the source, and the winner of the neighbours wins the
  second.
\<close>

definition narrower :: "cell \<Rightarrow> cell \<Rightarrow> cell" where
  "narrower c1 c2 = (if cell_span c1 < cell_span c2 then c1 else c2)"

definition two_stage :: "cell \<Rightarrow> cell \<Rightarrow> cell \<Rightarrow> cell" where
  "two_stage cand lft up = narrower cand (narrower lft up)"

text \<open>
  Two relations between neighbouring entries of the table, used to prove that
  the left neighbour is never wider than the candidate: from a row to the next
  the begin index does not decrease, an entry longer than the one above it ends
  at the current row, an entry of length 1 has span 1, and from a column to the
  next the begin index does not increase.
\<close>

definition begin_of :: "cell \<Rightarrow> int" where
  "begin_of c = fst (snd c)"

definition end_of :: "cell \<Rightarrow> int" where
  "end_of c = snd (snd c)"

definition down_ok :: "nat \<Rightarrow> cell \<Rightarrow> cell \<Rightarrow> bool" where
  "down_ok i up c \<longleftrightarrow>
     (fst c = 1 \<longrightarrow> cell_span c = 1) \<and>
     (fst c = fst up + 1 \<longrightarrow> end_of c = int i + 1) \<and>
     (1 \<le> fst up \<longrightarrow> begin_of up \<le> begin_of c)"

definition right_ok :: "cell \<Rightarrow> cell \<Rightarrow> bool" where
  "right_ok lft c \<longleftrightarrow>
     (fst c = 1 \<longrightarrow> cell_span c = 1) \<and>
     (1 \<le> fst lft \<longrightarrow> begin_of c \<le> begin_of lft)"

section \<open>Lemmas\<close>

subsection \<open>The loops fill the table with the values of \<open>cellf\<close>\<close>

lemma fold_enumerate_invariant:
  assumes "P k s"
    and "\<And>i s. i < length xs \<Longrightarrow> P (k + i) s \<Longrightarrow> P (Suc (k + i)) (f (k + i, xs ! i) s)"
  shows "P (k + length xs) (fold f (enumerate k xs) s)"
  using assms
proof (induction xs arbitrary: k s)
  case Nil
  then show ?case by simp
next
  case (Cons x xs)
  have first: "P (Suc k) (f (k, x) s)"
    using Cons.prems(2)[of 0 s] Cons.prems(1) by simp
  have step: "P (Suc (Suc k + i)) (f (Suc k + i, xs ! i) t)"
    if "i < length xs" "P (Suc k + i) t" for i t
    using Cons.prems(2)[of "Suc i" t] that by simp
  have "P (Suc k + length xs) (fold f (enumerate (Suc k) xs) (f (k, x) s))"
    by (rule Cons.IH[OF first step])
  then show ?case by simp
qed

lemma cellf_zero_left [simp]: "cellf s1 s2 0 j = (0, 0, 0)"
  by simp

lemma cellf_zero_right [simp]: "cellf s1 s2 i 0 = (0, 0, 0)"
  by (cases i) simp_all

lemma filled_init: "filled s1 s2 0 0 (init_table s1 s2)"
proof -
  have row: "replicate (Suc (length s1)) (replicate (Suc (length s2)) (0::int, 0::int, 0::int)) ! a
      = replicate (Suc (length s2)) (0, 0, 0)" if "a \<le> length s1" for a
    using that by (intro nth_replicate) simp
  have val: "replicate (Suc (length s2)) (0::int, 0::int, 0::int) ! b = (0, 0, 0)"
    if "b \<le> length s2" for b
    using that by (intro nth_replicate) simp
  show ?thesis
    unfolding filled_def init_table_def Suc_eq_plus1[symmetric]
    using row val by (simp del: replicate_Suc)
qed

lemma filled_body:
  assumes F: "filled s1 s2 j i L" and i: "i < length s1" and j: "j < length s2"
  shows "filled s1 s2 j (Suc i) (body j (s2 ! j) i (s1 ! i) L)"
proof -
  let ?v = "new_cell i (s1 ! i = s2 ! j) (L ! i ! j) (L ! Suc i ! j) (L ! i ! Suc j)"
  let ?L = "L[Suc i := (L ! Suc i)[Suc j := ?v]]"
  have len: "length L = Suc (length s1)"
    and rows: "\<And>a. a \<le> length s1 \<Longrightarrow> length (L ! a) = Suc (length s2)"
    and vals: "\<And>a b. a \<le> length s1 \<Longrightarrow> b \<le> length s2 \<Longrightarrow>
        L ! a ! b = (if b \<le> j \<or> (b = Suc j \<and> a \<le> i) then cellf s1 s2 a b else (0, 0, 0))"
    using F by (auto simp: filled_def)
  have g: "L ! i ! j = cellf s1 s2 i j" using vals[of i j] i j by simp
  have r: "L ! Suc i ! j = cellf s1 s2 (Suc i) j" using vals[of "Suc i" j] i j by simp
  have d: "L ! i ! Suc j = cellf s1 s2 i (Suc j)" using vals[of i "Suc j"] i j by simp
  have v: "?v = cellf s1 s2 (Suc i) (Suc j)" by (simp add: g r d)
  have b: "body j (s2 ! j) i (s1 ! i) L = ?L" by (simp add: body_def)
  have l1: "length ?L = Suc (length s1)" using len by simp
  have l2: "length (?L ! a) = Suc (length s2)" if "a \<le> length s1" for a
    using that rows[of a] len by (cases "a = Suc i") simp_all
  have l3: "?L ! a ! b =
      (if b \<le> j \<or> (b = Suc j \<and> a \<le> Suc i) then cellf s1 s2 a b else (0, 0, 0))"
    if a: "a \<le> length s1" and bb: "b \<le> length s2" for a b
  proof (cases "a = Suc i")
    case True
    show ?thesis
    proof (cases "b = Suc j")
      case True
      with \<open>a = Suc i\<close> show ?thesis using len rows[of a] a bb v by simp
    next
      case False
      with \<open>a = Suc i\<close> show ?thesis using len rows[of a] a bb vals[of a b] by auto
    qed
  next
    case False
    then show ?thesis using len a bb vals[of a b] by auto
  qed
  show ?thesis unfolding b filled_def using l1 l2 l3 by blast
qed

lemma filled_inner:
  assumes F: "filled s1 s2 j 0 L" and j: "j < length s2"
  shows "filled s1 s2 (Suc j) 0 (inner s1 j (s2 ! j) L)"
proof -
  have "filled s1 s2 j (0 + length s1)
          (fold (\<lambda>(i, x). body j (s2 ! j) i x) (enumerate 0 s1) L)"
  proof (rule fold_enumerate_invariant[where P = "\<lambda>i L. filled s1 s2 j i L"])
    show "filled s1 s2 j 0 L" by (rule F)
  next
    fix i t assume "i < length s1" "filled s1 s2 j (0 + i) t"
    then show "filled s1 s2 j (Suc (0 + i)) ((\<lambda>(i, x). body j (s2 ! j) i x) (0 + i, s1 ! i) t)"
      using filled_body[of s1 s2 j i t] j by simp
  qed
  then have "filled s1 s2 j (length s1) (inner s1 j (s2 ! j) L)"
    by (simp add: inner_def)
  then show ?thesis
    by (auto simp: filled_def)
qed

lemma filled_table: "filled s1 s2 (length s2) 0 (table s1 s2)"
proof -
  have "filled s1 s2 (0 + length s2) 0
          (fold (\<lambda>(j, y). inner s1 j y) (enumerate 0 s2) (init_table s1 s2))"
  proof (rule fold_enumerate_invariant[where P = "\<lambda>j L. filled s1 s2 j 0 L"])
    show "filled s1 s2 0 0 (init_table s1 s2)" by (rule filled_init)
  next
    fix j t assume "j < length s2" "filled s1 s2 (0 + j) 0 t"
    then show "filled s1 s2 (Suc (0 + j)) 0 ((\<lambda>(j, y). inner s1 j y) (0 + j, s2 ! j) t)"
      using filled_inner[of s1 s2 j t] by simp
  qed
  then show ?thesis by (simp add: table_def)
qed

lemma table_nth:
  "a \<le> length s1 \<Longrightarrow> b \<le> length s2 \<Longrightarrow> table s1 s2 ! a ! b = cellf s1 s2 a b"
  using filled_table[of s1 s2] by (simp add: filled_def)

lemma length_table: "length (table s1 s2) = Suc (length s1)"
  using filled_table[of s1 s2] by (simp add: filled_def)

lemma length_table_row: "a \<le> length s1 \<Longrightarrow> length (table s1 s2 ! a) = Suc (length s2)"
  using filled_table[of s1 s2] by (simp add: filled_def)

lemma last_table: "last (last (table s1 s2)) = cellf s1 s2 (length s1) (length s2)"
proof -
  have ne: "table s1 s2 \<noteq> []" using length_table[of s1 s2] by auto
  have "last (table s1 s2) = table s1 s2 ! length s1"
    using ne length_table[of s1 s2] by (simp add: last_conv_nth)
  moreover have "table s1 s2 ! length s1 \<noteq> []"
    using length_table_row[of "length s1" s1 s2] by auto
  ultimately have "last (last (table s1 s2)) = table s1 s2 ! length s1 ! length s2"
    using length_table_row[of "length s1" s1 s2] by (simp add: last_conv_nth)
  then show ?thesis by (simp add: table_nth)
qed

lemma lcs_sw_cellf:
  "lcs_sw s1 s2 = (case cellf s1 s2 (length s1) (length s2) of (l, b, e) \<Rightarrow> (l, e - b))"
  by (simp add: lcs_sw_def last_table)

subsection \<open>The invariant of the triples\<close>

lemma new_cell_ok:
  assumes "cell_ok i j g" "cell_ok (Suc i) j r" "cell_ok i (Suc j) d"
  shows "cell_ok (Suc i) (Suc j) (new_cell i eq g r d)"
proof -
  obtain gl gb ge where g: "g = (gl, gb, ge)" by (cases g)
  obtain rl rb re where r: "r = (rl, rb, re)" by (cases r)
  obtain dl db de where d: "d = (dl, db, de)" by (cases d)
  show ?thesis
    using assms unfolding g r d cell_ok_def new_cell_def Let_def
    by (simp split: if_splits)
qed

lemma cellf_ok: "cell_ok i j (cellf s1 s2 i j)"
proof (induction s1 s2 i j rule: cellf.induct)
  case (1 s1 s2 j)
  show ?case by (simp add: cell_ok_def)
next
  case (2 s1 s2 i)
  show ?case by (simp add: cell_ok_def)
next
  case (3 s1 s2 i j)
  then show ?case by (simp add: new_cell_ok)
qed

subsection \<open>The length component is the length of a longest common subsequence\<close>

lemma subseq_single: "subseq zs [y] \<longleftrightarrow> zs = [] \<or> zs = [y]"
  by (cases zs) (auto split: if_splits)

lemma subseq_snoc:
  "subseq zs (ys @ [y]) \<longleftrightarrow> subseq zs ys \<or> (\<exists>ws. zs = ws @ [y] \<and> subseq ws ys)"
  by (auto simp: subseq_append_iff subseq_single)

lemma is_lcs_length_unique:
  "is_lcs_length n xs ys \<Longrightarrow> is_lcs_length m xs ys \<Longrightarrow> n = m"
  unfolding is_lcs_length_def by (meson le_antisym)

lemma is_lcs_length_sym: "is_lcs_length n xs ys \<Longrightarrow> is_lcs_length n ys xs"
  unfolding is_lcs_length_def common_subseq_def by blast

lemma is_lcs_length_Nil_left: "is_lcs_length 0 [] ys"
  unfolding is_lcs_length_def common_subseq_def by auto

lemma is_lcs_length_Nil_right: "is_lcs_length 0 xs []"
  unfolding is_lcs_length_def common_subseq_def by auto

lemma is_lcs_length_refl: "is_lcs_length (length xs) xs xs"
  unfolding is_lcs_length_def common_subseq_def
  by (auto dest: list_emb_length)

lemma is_lcs_length_snoc_right_le:
  assumes "is_lcs_length n xs ys" "is_lcs_length m xs (ys @ [y])"
  shows "n \<le> m"
proof -
  obtain zs where "subseq zs xs" "subseq zs ys" "length zs = n"
    using assms(1) unfolding is_lcs_length_def common_subseq_def by blast
  then have "common_subseq zs xs (ys @ [y])"
    unfolding common_subseq_def by (simp add: subseq_snoc)
  then show ?thesis
    using assms(2) \<open>length zs = n\<close> unfolding is_lcs_length_def by blast
qed

lemma is_lcs_length_snoc_left_le:
  assumes "is_lcs_length n xs ys" "is_lcs_length m (xs @ [x]) ys"
  shows "n \<le> m"
  using is_lcs_length_snoc_right_le[OF is_lcs_length_sym[OF assms(1)] is_lcs_length_sym[OF assms(2)]] .

lemma is_lcs_length_snoc_eq:
  assumes "is_lcs_length n xs ys"
  shows "is_lcs_length (Suc n) (xs @ [x]) (ys @ [x])"
proof -
  obtain zs where zs: "subseq zs xs" "subseq zs ys" "length zs = n"
    using assms unfolding is_lcs_length_def common_subseq_def by blast
  have ub: "\<And>ws. subseq ws xs \<Longrightarrow> subseq ws ys \<Longrightarrow> length ws \<le> n"
    using assms unfolding is_lcs_length_def common_subseq_def by blast
  have ex: "common_subseq (zs @ [x]) (xs @ [x]) (ys @ [x]) \<and> length (zs @ [x]) = Suc n"
    using zs by (simp add: common_subseq_def)
  have "length ws \<le> Suc n" if c: "common_subseq ws (xs @ [x]) (ys @ [x])" for ws
  proof (cases "\<exists>vs. ws = vs @ [x]")
    case True
    then obtain vs where vs: "ws = vs @ [x]" by blast
    with c have "subseq vs xs" "subseq vs ys" by (simp_all add: common_subseq_def)
    then show ?thesis using ub[of vs] vs by simp
  next
    case False
    with c have "subseq ws xs" "subseq ws ys"
      by (auto simp: common_subseq_def subseq_snoc)
    then show ?thesis using ub[of ws] by simp
  qed
  with ex show ?thesis unfolding is_lcs_length_def by blast
qed

lemma is_lcs_length_snoc_neq:
  assumes neq: "x \<noteq> y"
    and a: "is_lcs_length a (xs @ [x]) ys"
    and b: "is_lcs_length b xs (ys @ [y])"
  shows "is_lcs_length (max a b) (xs @ [x]) (ys @ [y])"
proof -
  obtain za where za: "subseq za (xs @ [x])" "subseq za ys" "length za = a"
    using a unfolding is_lcs_length_def common_subseq_def by blast
  obtain zb where zb: "subseq zb xs" "subseq zb (ys @ [y])" "length zb = b"
    using b unfolding is_lcs_length_def common_subseq_def by blast
  have ca: "common_subseq za (xs @ [x]) (ys @ [y])"
    using za by (simp add: common_subseq_def subseq_snoc)
  have cb: "common_subseq zb (xs @ [x]) (ys @ [y])"
    using zb by (simp add: common_subseq_def subseq_snoc)
  have ex: "\<exists>zs. common_subseq zs (xs @ [x]) (ys @ [y]) \<and> length zs = max a b"
  proof (cases "a \<le> b")
    case True
    then show ?thesis using cb zb(3) by (auto simp: max_def)
  next
    case False
    then show ?thesis using ca za(3) by (auto simp: max_def)
  qed
  have "length ws \<le> max a b" if c: "common_subseq ws (xs @ [x]) (ys @ [y])" for ws
  proof (cases "subseq ws xs")
    case True
    with c have "common_subseq ws xs (ys @ [y])" by (simp add: common_subseq_def)
    then have "length ws \<le> b" using b unfolding is_lcs_length_def by blast
    then show ?thesis by simp
  next
    case False
    with c obtain vs where "ws = vs @ [x]"
      by (auto simp: common_subseq_def subseq_snoc)
    with c neq have "subseq ws ys"
      by (auto simp: common_subseq_def subseq_snoc)
    with c have "common_subseq ws (xs @ [x]) ys" by (simp add: common_subseq_def)
    then have "length ws \<le> a" using a unfolding is_lcs_length_def by blast
    then show ?thesis by simp
  qed
  with ex show ?thesis unfolding is_lcs_length_def by blast
qed

lemma new_cell_fst_match:
  assumes "fst r \<le> fst g + 1" "fst d \<le> fst g + 1"
  shows "fst (new_cell i True g r d) = fst g + 1"
proof -
  obtain gl gb ge where g: "g = (gl, gb, ge)" by (cases g)
  obtain rl rb re where r: "r = (rl, rb, re)" by (cases r)
  obtain dl db de where d: "d = (dl, db, de)" by (cases d)
  show ?thesis
    using assms unfolding g r d new_cell_def Let_def by (simp split: if_splits)
qed

lemma new_cell_fst_mismatch: "fst (new_cell i False g r d) = max (fst r) (fst d)"
proof -
  obtain gl gb ge where g: "g = (gl, gb, ge)" by (cases g)
  obtain rl rb re where r: "r = (rl, rb, re)" by (cases r)
  obtain dl db de where d: "d = (dl, db, de)" by (cases d)
  show ?thesis
    unfolding g r d new_cell_def by (simp split: if_splits)
qed

lemma cellf_fst_nonneg: "0 \<le> fst (cellf s1 s2 i j)"
  using cellf_ok[of i j s1 s2] by (cases "cellf s1 s2 i j") (simp add: cell_ok_def)

lemma cellf_length:
  "i \<le> length s1 \<Longrightarrow> j \<le> length s2 \<Longrightarrow>
     is_lcs_length (nat (fst (cellf s1 s2 i j))) (take i s1) (take j s2)"
proof (induction s1 s2 i j rule: cellf.induct)
  case (1 s1 s2 j)
  show ?case by (simp add: is_lcs_length_Nil_left)
next
  case (2 s1 s2 i)
  show ?case by (simp add: is_lcs_length_Nil_right)
next
  case (3 s1 s2 i j)
  let ?g = "cellf s1 s2 i j" and ?r = "cellf s1 s2 (Suc i) j" and ?d = "cellf s1 s2 i (Suc j)"
  from "3.prems" have i: "i < length s1" and j: "j < length s2" by simp_all
  have t1: "take (Suc i) s1 = take i s1 @ [s1 ! i]" using i by (simp add: take_Suc_conv_app_nth)
  have t2: "take (Suc j) s2 = take j s2 @ [s2 ! j]" using j by (simp add: take_Suc_conv_app_nth)
  have G: "is_lcs_length (nat (fst ?g)) (take i s1) (take j s2)"
    using "3.IH"(1) i j by simp
  have R: "is_lcs_length (nat (fst ?r)) (take i s1 @ [s1 ! i]) (take j s2)"
    using "3.IH"(2) "3.prems" j t1 by simp
  have D: "is_lcs_length (nat (fst ?d)) (take i s1) (take j s2 @ [s2 ! j])"
    using "3.IH"(3) "3.prems" i t2 by simp
  show ?case
  proof (cases "s1 ! i = s2 ! j")
    case True
    have S: "is_lcs_length (Suc (nat (fst ?g))) (take i s1 @ [s1 ! i]) (take j s2 @ [s2 ! j])"
      using is_lcs_length_snoc_eq[OF G, of "s1 ! i"] True by simp
    have "nat (fst ?r) \<le> Suc (nat (fst ?g))"
      by (rule is_lcs_length_snoc_right_le[OF R S])
    moreover have "nat (fst ?d) \<le> Suc (nat (fst ?g))"
      by (rule is_lcs_length_snoc_left_le[OF D S])
    ultimately have "fst ?r \<le> fst ?g + 1" "fst ?d \<le> fst ?g + 1"
      using cellf_fst_nonneg[of s1 s2 i j] by linarith+
    then have "fst (cellf s1 s2 (Suc i) (Suc j)) = fst ?g + 1"
      using True by (simp add: new_cell_fst_match)
    then have "nat (fst (cellf s1 s2 (Suc i) (Suc j))) = Suc (nat (fst ?g))"
      using cellf_fst_nonneg[of s1 s2 i j] by simp
    then show ?thesis using S t1 t2 by simp
  next
    case False
    have "fst (cellf s1 s2 (Suc i) (Suc j)) = max (fst ?r) (fst ?d)"
      using False by (simp add: new_cell_fst_mismatch)
    then have "nat (fst (cellf s1 s2 (Suc i) (Suc j))) = max (nat (fst ?r)) (nat (fst ?d))"
      by (simp add: max_def)
    then show ?thesis
      using is_lcs_length_snoc_neq[OF False R D] t1 t2 by simp
  qed
qed

lemma lcs_sw_fst: "fst (lcs_sw s1 s2) = fst (cellf s1 s2 (length s1) (length s2))"
  by (simp add: lcs_sw_cellf split: prod.splits)

lemma lcs_sw_length_is_lcs: "is_lcs_length (nat (fst (lcs_sw s1 s2))) s1 s2"
  using cellf_length[of "length s1" s1 "length s2" s2] by (simp add: lcs_sw_fst)

lemma lcs_sw_fst_nonneg: "0 \<le> fst (lcs_sw s1 s2)"
  by (simp add: lcs_sw_fst cellf_fst_nonneg)

lemma lcs_sw_length_sym: "fst (lcs_sw s1 s2) = fst (lcs_sw s2 s1)"
proof -
  have "nat (fst (lcs_sw s1 s2)) = nat (fst (lcs_sw s2 s1))"
    using is_lcs_length_unique[OF lcs_sw_length_is_lcs[of s1 s2]
        is_lcs_length_sym[OF lcs_sw_length_is_lcs[of s2 s1]]] .
  then show ?thesis
    using lcs_sw_fst_nonneg[of s1 s2] lcs_sw_fst_nonneg[of s2 s1] by simp
qed

subsection \<open>Bounds on the result of \<open>lcs_sw\<close> and the value of the score\<close>

lemma lcs_sw_cell_ok:
  "cell_ok (length s1) (length s2) (cellf s1 s2 (length s1) (length s2))"
  by (rule cellf_ok)

lemma lcs_sw_snd_nonneg: "0 \<le> snd (lcs_sw s1 s2)"
  using lcs_sw_cell_ok[of s1 s2]
  by (cases "cellf s1 s2 (length s1) (length s2)") (simp add: lcs_sw_cellf cell_ok_def)

lemma lcs_sw_same: "lcs_sw s s = (int (length s), int (length s))"
proof -
  obtain l b e where c: "cellf s s (length s) (length s) = (l, b, e)"
    by (cases "cellf s s (length s) (length s)")
  have "nat (fst (lcs_sw s s)) = length s"
    by (rule is_lcs_length_unique[OF lcs_sw_length_is_lcs is_lcs_length_refl])
  then have l: "l = int (length s)"
    using lcs_sw_fst_nonneg[of s s] by (simp add: lcs_sw_cellf c)
  have "cell_ok (length s) (length s) (l, b, e)"
    using cellf_ok[of "length s" "length s" s s] by (simp add: c)
  then have "e - b = int (length s)"
    using l by (simp add: cell_ok_def)
  then show ?thesis by (simp add: lcs_sw_cellf c l)
qed

lemma spread_RO_value:
  assumes "s1 \<noteq> [] \<or> s2 \<noteq> []"
  shows "spread_RO s1 s2 =
     Inr (of_int (3 * fst (lcs_sw s1 s2)) /
          of_int (int (length s1) + int (length s2) + snd (lcs_sw s1 s2)))"
proof -
  have "0 < length s1 + length s2" using assms by auto
  then have "0 < int (length s1) + int (length s2)" by linarith
  then have "int (length s1) + int (length s2) + snd (lcs_sw s1 s2) \<noteq> 0"
    using lcs_sw_snd_nonneg[of s1 s2] by linarith
  then show ?thesis
    by (cases "lcs_sw s1 s2") (simp add: spread_RO_def Let_def)
qed

subsection \<open>The substitutions act on single code points\<close>

text \<open>The composite of the seven replacements on one code point.\<close>

lemma preProcess_map:
  "preProcess lower word =
     map (\<lambda>c. let d = lower c in
            if d = 0x2019 then 0x27 else if d = 0xE9 then 0x65 else if d = 0xED then 0x69
            else if d = 0xF3 then 0x6F else if d = 0xFA then 0x75 else if d = 0xE1 then 0x61
            else if d = 0xD1 then 0xF1 else d) word"
  by (simp add: preProcess_def substitutions_def replace_char_def Let_def)



subsection \<open>The begin index is monotone across the table\<close>

lemma new_cell_match_cases:
  assumes "fst r \<le> fst g + 1" "fst d \<le> fst g + 1"
  shows "new_cell i True g r d = candidate i g \<or>
        (new_cell i True g r d = r \<and> fst r = fst g + 1) \<or>
        (new_cell i True g r d = d \<and> fst d = fst g + 1)"
proof -
  obtain gl gb ge where g: "g = (gl, gb, ge)" by (cases g)
  obtain rl rb re where r: "r = (rl, rb, re)" by (cases r)
  obtain dl db de where d: "d = (dl, db, de)" by (cases d)
  show ?thesis
    using assms unfolding g r d new_cell_def candidate_def Let_def
    by (simp split: if_splits)
qed

lemma new_cell_mismatch_cases:
  "(new_cell i False g r d = r \<and> fst d \<le> fst r) \<or>
   (new_cell i False g r d = d \<and> fst r \<le> fst d)"
proof -
  obtain gl gb ge where g: "g = (gl, gb, ge)" by (cases g)
  obtain rl rb re where r: "r = (rl, rb, re)" by (cases r)
  obtain dl db de where d: "d = (dl, db, de)" by (cases d)
  show ?thesis
    unfolding g r d new_cell_def by (simp split: if_splits)
qed

lemma anti_diagonal:
  assumes ok: "cell_ok i j g" "cell_ok (Suc i) j r" "cell_ok i (Suc j) d"
    and len: "fst r \<le> fst g + 1" "fst d \<le> fst g + 1"
    and dn: "down_ok i g r" and rt: "right_ok g d"
    and pos: "1 \<le> fst r" "1 \<le> fst d"
  shows "begin_of d \<le> begin_of r"
proof (cases "1 \<le> fst g")
  case True
  then have "begin_of d \<le> begin_of g" "begin_of g \<le> begin_of r"
    using dn rt by (simp_all add: down_ok_def right_ok_def)
  then show ?thesis by linarith
next
  case False
  then have g0: "fst g = 0" using ok(1) by (cases g) (simp add: cell_ok_def)
  then have "fst r = 1" using len(1) pos(1) by linarith
  then have "cell_span r = 1" "end_of r = int i + 1"
    using dn g0 by (simp_all add: down_ok_def)
  then have "begin_of r = int i"
    by (cases r) (simp add: cell_span_def begin_of_def end_of_def)
  moreover have "begin_of d \<le> int i"
    using ok(3) by (cases d) (simp add: cell_ok_def begin_of_def)
  ultimately show ?thesis by linarith
qed

lemma candidate_mono:
  assumes ok: "cell_ok i j g" "cell_ok (Suc i) j r" "cell_ok i (Suc j) d"
    and len: "fst r \<le> fst g + 1" "fst d \<le> fst g + 1"
    and dn: "down_ok i g r" and rt: "right_ok g d"
  shows "down_ok i d (candidate i g) \<and> right_ok r (candidate i g)"
proof -
  obtain gl gb ge where g: "g = (gl, gb, ge)" by (cases g)
  have gl0: "0 \<le> gl" using ok(1) by (simp add: g cell_ok_def)
  have s1: "fst (candidate i g) = 1 \<longrightarrow> cell_span (candidate i g) = 1"
    by (simp add: g candidate_def cell_span_def)
  have e: "end_of (candidate i g) = int i + 1"
    by (simp add: g candidate_def end_of_def)
  have md: "begin_of d \<le> begin_of (candidate i g)"
  proof (cases "gl = 0")
    case True
    have "begin_of d \<le> int i"
      using ok(3) by (cases d) (simp add: cell_ok_def begin_of_def)
    then show ?thesis using True by (simp add: g candidate_def begin_of_def)
  next
    case False
    then have "1 \<le> fst g" using gl0 by (simp add: g)
    then have "begin_of d \<le> begin_of g" using rt by (simp add: right_ok_def)
    then show ?thesis using False by (simp add: g candidate_def begin_of_def)
  qed
  have mr: "begin_of (candidate i g) \<le> begin_of r" if "1 \<le> fst r"
  proof (cases "gl = 0")
    case True
    then have "fst r = 1" using len(1) that by (simp add: g)
    then have "cell_span r = 1" "end_of r = int i + 1"
      using dn True by (simp_all add: down_ok_def g)
    then have "begin_of r = int i"
      by (cases r) (simp add: cell_span_def begin_of_def end_of_def)
    then show ?thesis using True by (simp add: g candidate_def begin_of_def)
  next
    case False
    then have "1 \<le> fst g" using gl0 by (simp add: g)
    then have "begin_of g \<le> begin_of r" using dn by (simp add: down_ok_def)
    then show ?thesis using False by (simp add: g candidate_def begin_of_def)
  qed
  show ?thesis
    using s1 e md mr by (simp add: down_ok_def right_ok_def)
qed

lemma new_cell_mono:
  assumes ok: "cell_ok i j g" "cell_ok (Suc i) j r" "cell_ok i (Suc j) d"
    and len: "fst g \<le> fst r" "fst r \<le> fst g + 1" "fst g \<le> fst d" "fst d \<le> fst g + 1"
    and dn: "down_ok i g r" and rt: "right_ok g d"
  shows "down_ok i d (new_cell i eq g r d) \<and> right_ok r (new_cell i eq g r d)"
proof -
  have s1r: "fst r = 1 \<longrightarrow> cell_span r = 1" using dn by (simp add: down_ok_def)
  have s1d: "fst d = 1 \<longrightarrow> cell_span d = 1" using rt by (simp add: right_ok_def)
  have anti: "begin_of d \<le> begin_of r" if "1 \<le> fst r" "1 \<le> fst d"
    using anti_diagonal[OF ok len(2) len(4) dn rt that] .
  have g0: "0 \<le> fst g" using ok(1) by (cases g) (simp add: cell_ok_def)
  have r_case: "down_ok i d r \<and> right_ok r r" if "fst d \<le> fst r"
  proof -
    have "end_of r = int i + 1" if "fst r = fst d + 1"
    proof -
      from that len have "fst r = fst g + 1" by linarith
      then show ?thesis using dn by (simp add: down_ok_def)
    qed
    moreover have "begin_of d \<le> begin_of r" if "1 \<le> fst d"
      using anti that \<open>fst d \<le> fst r\<close> by linarith
    ultimately show ?thesis using s1r by (simp add: down_ok_def right_ok_def)
  qed
  have d_case: "down_ok i d d \<and> right_ok r d" if "fst r \<le> fst d"
  proof -
    have "begin_of d \<le> begin_of r" if "1 \<le> fst r"
      using anti that \<open>fst r \<le> fst d\<close> by linarith
    then show ?thesis using s1d by (simp add: down_ok_def right_ok_def)
  qed
  show ?thesis
  proof (cases eq)
    case True
    from new_cell_match_cases[OF len(2) len(4), of i]
    consider (cand) "new_cell i True g r d = candidate i g"
      | (lft) "new_cell i True g r d = r" "fst r = fst g + 1"
      | (up) "new_cell i True g r d = d" "fst d = fst g + 1"
      by blast
    then show ?thesis
    proof cases
      case cand
      then show ?thesis
        using candidate_mono[OF ok len(2) len(4) dn rt] True by simp
    next
      case lft
      then have "fst d \<le> fst r" using len by linarith
      then show ?thesis using r_case lft True by simp
    next
      case up
      then have "fst r \<le> fst d" using len by linarith
      then show ?thesis using d_case up True by simp
    qed
  next
    case False
    from new_cell_mismatch_cases[of i g r d]
    consider (lft) "new_cell i False g r d = r" "fst d \<le> fst r"
      | (up) "new_cell i False g r d = d" "fst r \<le> fst d"
      by blast
    then show ?thesis
    proof cases
      case lft
      then show ?thesis using r_case False by simp
    next
      case up
      then show ?thesis using d_case False by simp
    qed
  qed
qed

lemma is_lcs_length_snoc_left_ub:
  assumes "is_lcs_length n xs ys" "is_lcs_length m (xs @ [x]) ys"
  shows "m \<le> Suc n"
proof -
  obtain zs where zs: "subseq zs (xs @ [x])" "subseq zs ys" "length zs = m"
    using assms(2) unfolding is_lcs_length_def common_subseq_def by blast
  have ub: "\<And>ws. subseq ws xs \<Longrightarrow> subseq ws ys \<Longrightarrow> length ws \<le> n"
    using assms(1) unfolding is_lcs_length_def common_subseq_def by blast
  from zs(1) consider "subseq zs xs" | ws where "zs = ws @ [x]" "subseq ws xs"
    by (auto simp: subseq_snoc)
  then show ?thesis
  proof cases
    case 1
    then show ?thesis using ub[of zs] zs by simp
  next
    case 2
    then have "subseq ws ys" using zs(2) list_emb_appendD by blast
    then show ?thesis using ub[of ws] 2 zs(3) by simp
  qed
qed

lemma is_lcs_length_snoc_right_ub:
  assumes "is_lcs_length n xs ys" "is_lcs_length m xs (ys @ [y])"
  shows "m \<le> Suc n"
  using is_lcs_length_snoc_left_ub[OF is_lcs_length_sym[OF assms(1)] is_lcs_length_sym[OF assms(2)]] .

lemma cellf_fst_down:
  assumes "i < length s1" "j \<le> length s2"
  shows "fst (cellf s1 s2 i j) \<le> fst (cellf s1 s2 (Suc i) j) \<and>
         fst (cellf s1 s2 (Suc i) j) \<le> fst (cellf s1 s2 i j) + 1"
proof -
  have t: "take (Suc i) s1 = take i s1 @ [s1 ! i]"
    using assms(1) by (simp add: take_Suc_conv_app_nth)
  have a: "is_lcs_length (nat (fst (cellf s1 s2 i j))) (take i s1) (take j s2)"
    using cellf_length[of i s1 j s2] assms by simp
  have b: "is_lcs_length (nat (fst (cellf s1 s2 (Suc i) j))) (take i s1 @ [s1 ! i]) (take j s2)"
    using cellf_length[of "Suc i" s1 j s2] assms t by simp
  have "nat (fst (cellf s1 s2 i j)) \<le> nat (fst (cellf s1 s2 (Suc i) j))"
    by (rule is_lcs_length_snoc_left_le[OF a b])
  moreover have "nat (fst (cellf s1 s2 (Suc i) j)) \<le> Suc (nat (fst (cellf s1 s2 i j)))"
    by (rule is_lcs_length_snoc_left_ub[OF a b])
  ultimately show ?thesis
    using cellf_fst_nonneg[of s1 s2 i j] cellf_fst_nonneg[of s1 s2 "Suc i" j] by linarith
qed

lemma cellf_fst_right:
  assumes "i \<le> length s1" "j < length s2"
  shows "fst (cellf s1 s2 i j) \<le> fst (cellf s1 s2 i (Suc j)) \<and>
         fst (cellf s1 s2 i (Suc j)) \<le> fst (cellf s1 s2 i j) + 1"
proof -
  have t: "take (Suc j) s2 = take j s2 @ [s2 ! j]"
    using assms(2) by (simp add: take_Suc_conv_app_nth)
  have a: "is_lcs_length (nat (fst (cellf s1 s2 i j))) (take i s1) (take j s2)"
    using cellf_length[of i s1 j s2] assms by simp
  have b: "is_lcs_length (nat (fst (cellf s1 s2 i (Suc j)))) (take i s1) (take j s2 @ [s2 ! j])"
    using cellf_length[of i s1 "Suc j" s2] assms t by simp
  have "nat (fst (cellf s1 s2 i j)) \<le> nat (fst (cellf s1 s2 i (Suc j)))"
    by (rule is_lcs_length_snoc_right_le[OF a b])
  moreover have "nat (fst (cellf s1 s2 i (Suc j))) \<le> Suc (nat (fst (cellf s1 s2 i j)))"
    by (rule is_lcs_length_snoc_right_ub[OF a b])
  ultimately show ?thesis
    using cellf_fst_nonneg[of s1 s2 i j] cellf_fst_nonneg[of s1 s2 i "Suc j"] by linarith
qed

lemma cellf_mono:
  "i \<le> length s1 \<Longrightarrow> j \<le> length s2 \<Longrightarrow>
     (\<forall>i'. i = Suc i' \<longrightarrow> down_ok i' (cellf s1 s2 i' j) (cellf s1 s2 i j)) \<and>
     (\<forall>j'. j = Suc j' \<longrightarrow> right_ok (cellf s1 s2 i j') (cellf s1 s2 i j))"
proof (induction s1 s2 i j rule: cellf.induct)
  case (1 s1 s2 j)
  show ?case by (simp add: right_ok_def)
next
  case (2 s1 s2 i)
  show ?case by (simp add: down_ok_def)
next
  case (3 s1 s2 i j)
  let ?g = "cellf s1 s2 i j" and ?r = "cellf s1 s2 (Suc i) j" and ?d = "cellf s1 s2 i (Suc j)"
  from "3.prems" have i: "i < length s1" and j: "j < length s2" by simp_all
  have dn: "down_ok i ?g ?r" using "3.IH"(2) "3.prems" j by simp
  have rt: "right_ok ?g ?d" using "3.IH"(3) "3.prems" i by simp
  have l1: "fst ?g \<le> fst ?r" "fst ?r \<le> fst ?g + 1"
    using cellf_fst_down[of i s1 j s2] i j by simp_all
  have l2: "fst ?g \<le> fst ?d" "fst ?d \<le> fst ?g + 1"
    using cellf_fst_right[of i s1 j s2] i j by simp_all
  have "down_ok i ?d (new_cell i (s1 ! i = s2 ! j) ?g ?r ?d) \<and>
        right_ok ?r (new_cell i (s1 ! i = s2 ! j) ?g ?r ?d)"
    by (rule new_cell_mono[OF cellf_ok cellf_ok cellf_ok l1 l2 dn rt])
  then show ?case by simp
qed

lemma cellf_down_ok:
  "i < length s1 \<Longrightarrow> j \<le> length s2 \<Longrightarrow> down_ok i (cellf s1 s2 i j) (cellf s1 s2 (Suc i) j)"
  using cellf_mono[of "Suc i" s1 j s2] by simp

lemma new_cell_double_tie:
  assumes "fst r = fst g + 1" "fst d = fst g + 1"
  shows "new_cell i True g r d = narrower r d"
proof -
  obtain gl gb ge where g: "g = (gl, gb, ge)" by (cases g)
  obtain rl rb re where r: "r = (rl, rb, re)" by (cases r)
  obtain dl db de where d: "d = (dl, db, de)" by (cases d)
  show ?thesis
    using assms unfolding g r d new_cell_def narrower_def cell_span_def Let_def by simp
qed

lemma left_not_wider:
  assumes ok: "cell_ok i j g" and dn: "down_ok i g r" and tie: "fst r = fst g + 1"
  shows "cell_span r \<le> cell_span (candidate i g)"
proof -
  obtain gl gb ge where g: "g = (gl, gb, ge)" by (cases g)
  obtain rl rb re where r: "r = (rl, rb, re)" by (cases r)
  have gl0: "0 \<le> gl" using ok by (simp add: g cell_ok_def)
  have e: "re = int i + 1" using dn tie by (simp add: down_ok_def g r end_of_def)
  show ?thesis
  proof (cases "gl = 0")
    case True
    then have "cell_span r = 1" using dn tie by (simp add: down_ok_def g r)
    then show ?thesis using True by (simp add: g candidate_def cell_span_def)
  next
    case False
    then have "gb \<le> rb" using dn gl0 by (simp add: down_ok_def g r begin_of_def)
    then show ?thesis using False e by (simp add: g r candidate_def cell_span_def)
  qed
qed

subsection \<open>\<open>search\<close> when no score raises\<close>

lemma score_all_keys:
  "score_all lower q d = Inr m \<Longrightarrow> map fst m = map fst d"
proof (induction d arbitrary: m)
  case Nil
  then show ?case by simp
next
  case (Cons a d)
  obtain entry v where a: "a = (entry, v)" by (cases a)
  from Cons.prems obtain s m' where
    "spread_RO (preProcess lower entry) q = Inr s" "score_all lower q d = Inr m'" "m = (entry, s) # m'"
    by (auto simp: a split: sum.splits)
  then show ?case using Cons.IH[of m'] by (simp add: a)
qed

lemma score_all_scores:
  "score_all lower q d = Inr m \<Longrightarrow> (k, s) \<in> set m \<Longrightarrow> spread_RO (preProcess lower k) q = Inr s"
proof (induction d arbitrary: m)
  case Nil
  then show ?case by simp
next
  case (Cons a d)
  obtain entry v where a: "a = (entry, v)" by (cases a)
  from Cons.prems(1) obtain s' m' where
    *: "spread_RO (preProcess lower entry) q = Inr s'" "score_all lower q d = Inr m'" "m = (entry, s') # m'"
    by (auto simp: a split: sum.splits)
  show ?case
  proof (cases "(k, s) = (entry, s')")
    case True
    then show ?thesis using *(1) by simp
  next
    case False
    then have "(k, s) \<in> set m'" using Cons.prems(2) *(3) by auto
    then show ?thesis using Cons.IH[OF *(2)] by simp
  qed
qed

lemma score_all_succeeds:
  assumes "q \<noteq> [] \<or> (\<forall>(k, v) \<in> set d. preProcess lower k \<noteq> [])"
  shows "\<exists>m. score_all lower q d = Inr m"
  using assms
proof (induction d)
  case Nil
  then show ?case by simp
next
  case (Cons a d)
  obtain entry v where a: "a = (entry, v)" by (cases a)
  have "preProcess lower entry \<noteq> [] \<or> q \<noteq> []" using Cons.prems a by auto
  then obtain s where "spread_RO (preProcess lower entry) q = Inr s"
    using spread_RO_value[of "preProcess lower entry" q] by blast
  moreover obtain m where "score_all lower q d = Inr m"
    using Cons.IH Cons.prems by auto
  ultimately show ?case by (simp add: a)
qed

lemma lookup_all_succeeds:
  "set keys \<subseteq> fst ` set d \<Longrightarrow>
     lookup_all d keys = Inr (map (\<lambda>k. [(k, the (map_of d k))]) keys)"
proof (induction keys)
  case Nil
  then show ?case by simp
next
  case (Cons k keys)
  then have "k \<in> fst ` set d" by simp
  then obtain v where "map_of d k = Some v"
    by (metis map_of_eq_None_iff not_Some_eq)
  then show ?case using Cons by simp
qed

lemma length_most_common: "length (most_common n m) = min (nat n) (length m)"
  by (simp add: most_common_def min.commute)

lemma most_common_sorted: "sorted (map (\<lambda>(k, v). - v) (most_common n m))"
proof -
  have "sorted (map (\<lambda>(k, v). - v) (sort_key (\<lambda>(k, v). - v) m))"
    by (rule sorted_sort_key)
  then show ?thesis
    unfolding most_common_def by (simp add: take_map[symmetric] sorted_wrt_take)
qed

lemma most_common_top:
  assumes "x \<in> set (most_common n m)"
    and "y \<in> set (drop (nat n) (sort_key (\<lambda>(k, v). - v) m))"
  shows "snd y \<le> snd x"
proof -
  let ?xs = "sort_key (\<lambda>(k, v). - v) m"
  have "sorted (map (\<lambda>(k, v). - v) (take (nat n) ?xs @ drop (nat n) ?xs))"
    using sorted_sort_key[of "\<lambda>(k, v). - v" m] by simp
  then have "(\<lambda>(k, v). - v) x \<le> (\<lambda>(k, v). - v) y"
    using assms unfolding most_common_def map_append sorted_append by auto
  then show ?thesis by (cases x; cases y) simp
qed

lemma search_ranked:
  assumes "search lower query d n = Inr res"
  shows "\<exists>m. score_all lower (preProcess lower query) d = Inr m \<and> map fst m = map fst d \<and>
           res = map (\<lambda>k. [(k, the (map_of d k))]) (map fst (most_common n m)) \<and>
           length res = min (nat n) (length d) \<and>
           sorted (map (\<lambda>(k, v). - v) (most_common n m))"
proof -
  from assms obtain m where m: "score_all lower (preProcess lower query) d = Inr m"
    and l: "lookup_all d (map fst (most_common n m)) = Inr res"
    by (auto simp: search_def Let_def split: sum.splits)
  have keys: "map fst m = map fst d" by (rule score_all_keys[OF m])
  have "set (most_common n m) \<subseteq> set m"
    unfolding most_common_def using set_take_subset[of "nat n" "sort_key (\<lambda>(k, v). - v) m"] by simp
  then have "set (map fst (most_common n m)) \<subseteq> fst ` set m" by auto
  also have "fst ` set m = fst ` set d" using keys by (metis set_map)
  finally have "lookup_all d (map fst (most_common n m)) =
      Inr (map (\<lambda>k. [(k, the (map_of d k))]) (map fst (most_common n m)))"
    by (rule lookup_all_succeeds)
  with l have res: "res = map (\<lambda>k. [(k, the (map_of d k))]) (map fst (most_common n m))" by simp
  have "length m = length d" using keys by (metis length_map)
  then have "length res = min (nat n) (length d)"
    by (simp add: res length_most_common)
  then show ?thesis using m keys res most_common_sorted by blast
qed

lemma search_succeeds:
  assumes "preProcess lower query \<noteq> [] \<or> (\<forall>(k, v) \<in> set d. preProcess lower k \<noteq> [])"
  shows "\<exists>res. search lower query d n = Inr res"
proof -
  obtain m where m: "score_all lower (preProcess lower query) d = Inr m"
    using score_all_succeeds[OF assms] by blast
  have keys: "map fst m = map fst d" by (rule score_all_keys[OF m])
  have "set (most_common n m) \<subseteq> set m"
    unfolding most_common_def using set_take_subset[of "nat n" "sort_key (\<lambda>(k, v). - v) m"] by simp
  then have "set (map fst (most_common n m)) \<subseteq> fst ` set m" by auto
  also have "fst ` set m = fst ` set d" using keys by (metis set_map)
  finally show ?thesis
    using lookup_all_succeeds[of "map fst (most_common n m)" d] m
    by (simp add: search_def)
qed

section \<open>The claims\<close>

text \<open>
  C2: \<open>lcs_sw\<close> reproduces the six worked examples: ("abc", "ac") gives (2, 3),
  ("abbc", "ac") gives (2, 4), ("acabc", "ac") gives (2, 2), ("abcac", "ac") gives
  (2, 2), ("abacbc", "ac") gives (2, 2) and ("adbc", "abc") gives (3, 4).
\<close>

theorem lcs_sw_worked_examples:
  "lcs_sw ''abc'' ''ac'' = (2, 3) \<and>
   lcs_sw ''abbc'' ''ac'' = (2, 4) \<and>
   lcs_sw ''acabc'' ''ac'' = (2, 2) \<and>
   lcs_sw ''abcac'' ''ac'' = (2, 2) \<and>
   lcs_sw ''abacbc'' ''ac'' = (2, 2) \<and>
   lcs_sw ''adbc'' ''abc'' = (3, 4)"
  by code_simp

text \<open>
  C1: \<open>lcs_sw\<close> is claimed to return the length of a longest common subsequence
  together with the length of the shortest window of \<open>s1\<close> that contains a
  longest common subsequence.  The first component is that length (lemma
  \<open>lcs_sw_length_is_lcs\<close>), but the second is not minimal: on "abxaxbc" and
  "abc" the function returns the window 7, while the slice \<open>s1[3:7]\<close> = "axbc",
  of length 4, contains the common subsequence "abc" of length 3.
\<close>

theorem lcs_sw_window_not_minimal:
  "lcs_sw ''abxaxbc'' ''abc'' = (3, 7) \<and>
   window_holds ''abxaxbc'' ''abc'' 3 7 ''abc'' \<and>
   length ''abc'' = 3 \<and> length (take (7 - 3) (drop 3 ''abxaxbc'')) = 4"
  by code_simp

text \<open>
  C7: the result \<open>(length, window)\<close> of \<open>lcs_sw\<close> satisfies
  \<open>0 \<le> length \<le> min(|s1|, |s2|)\<close>, \<open>window = 0\<close> exactly when \<open>length = 0\<close>, and
  \<open>length \<le> window \<le> |s1|\<close> when \<open>length > 0\<close>; every triple
  \<open>(length, begin, end)\<close> of the table satisfies \<open>end - begin \<ge> length\<close> and
  \<open>end \<ge> begin\<close>.
\<close>

theorem lcs_sw_bounds:
  "(case lcs_sw s1 s2 of (len, window) \<Rightarrow>
      0 \<le> len \<and> len \<le> min (int (length s1)) (int (length s2)) \<and>
      (window = 0 \<longleftrightarrow> len = 0) \<and>
      (0 < len \<longrightarrow> len \<le> window \<and> window \<le> int (length s1))) \<and>
   (\<forall>row \<in> set (table s1 s2). \<forall>c \<in> set row.
      case c of (l, b, e) \<Rightarrow> l \<le> e - b \<and> b \<le> e)"
proof
  obtain l b e where c: "cellf s1 s2 (length s1) (length s2) = (l, b, e)"
    by (cases "cellf s1 s2 (length s1) (length s2)")
  have "cell_ok (length s1) (length s2) (l, b, e)"
    using cellf_ok[of "length s1" "length s2" s1 s2] by (simp add: c)
  then show "case lcs_sw s1 s2 of (len, window) \<Rightarrow>
      0 \<le> len \<and> len \<le> min (int (length s1)) (int (length s2)) \<and>
      (window = 0 \<longleftrightarrow> len = 0) \<and>
      (0 < len \<longrightarrow> len \<le> window \<and> window \<le> int (length s1))"
    by (auto simp: lcs_sw_cellf c cell_ok_def)
next
  show "\<forall>row \<in> set (table s1 s2). \<forall>c \<in> set row. case c of (l, b, e) \<Rightarrow> l \<le> e - b \<and> b \<le> e"
  proof (intro ballI)
    fix row c assume row: "row \<in> set (table s1 s2)" and c: "c \<in> set row"
    from row obtain a where a: "a < length (table s1 s2)" "row = table s1 s2 ! a"
      by (auto simp: in_set_conv_nth)
    then have a': "a \<le> length s1" by (simp add: length_table)
    from c obtain k where k: "k < length row" "c = row ! k"
      by (auto simp: in_set_conv_nth)
    then have k': "k \<le> length s2" using a a' by (simp add: length_table_row)
    have "c = cellf s1 s2 a k" using a k a' k' by (simp add: table_nth)
    then have "cell_ok a k c" by (simp add: cellf_ok)
    then show "case c of (l, b, e) \<Rightarrow> l \<le> e - b \<and> b \<le> e"
      by (cases c) (simp add: cell_ok_def)
  qed
qed

theorem lcs_sw_bounds_witness:
  "lcs_sw ''abbc'' ''ac'' = (2, 4) \<and> (0::int) < 2 \<and> (2::int) \<le> 4 \<and>
   (4::int) \<le> int (length ''abbc'') \<and>
   (2, 0, 4) \<in> set (table ''abbc'' ''ac'' ! 4) \<and>
   table ''abbc'' ''ac'' ! 4 \<in> set (table ''abbc'' ''ac'') \<and> (2::int) \<le> 4 - 0"
proof -
  have ev: "lcs_sw ''abbc'' ''ac'' = (2, 4)" "table ''abbc'' ''ac'' ! 4 = [(0, 0, 0), (1, 0, 1), (2, 0, 4)]"
    by code_simp+
  have mem: "table ''abbc'' ''ac'' ! 4 \<in> set (table ''abbc'' ''ac'')"
    by (rule nth_mem) (simp add: length_table)
  show ?thesis
    using lcs_sw_bounds[of "''abbc''" "''ac''"] ev mem by simp
qed

text \<open>
  C8: the length component of \<open>lcs_sw(s1, s2)\<close> equals that of \<open>lcs_sw(s2, s1)\<close>;
  the window components may differ, as they do for "abc" and "ac".
\<close>

theorem lcs_sw_length_symmetric:
  "fst (lcs_sw s1 s2) = fst (lcs_sw s2 s1) \<and>
   snd (lcs_sw ''abc'' ''ac'') \<noteq> snd (lcs_sw ''ac'' ''abc'')"
proof
  show "fst (lcs_sw s1 s2) = fst (lcs_sw s2 s1)" by (rule lcs_sw_length_sym)
  show "snd (lcs_sw ''abc'' ''ac'') \<noteq> snd (lcs_sw ''ac'' ''abc'')" by code_simp
qed

text \<open>
  C4: \<open>spread_RO\<close> is claimed to return \<open>3 * length / (|s1| + |s2| + window)\<close> and
  to give 0, without failing, when both strings are empty.  The formula holds
  whenever one string is non-empty (lemma \<open>spread_RO_value\<close>); on two empty
  strings the function divides \<open>0.0\<close> by \<open>0.0\<close> and raises \<open>ZeroDivisionError\<close>.
\<close>

theorem spread_RO_empty_raises:
  "spread_RO ([] :: string) ([] :: string) = Inl ZeroDivisionError"
  by code_simp

text \<open>
  C6: for every non-empty string \<open>s\<close>, \<open>lcs_sw(s, s)\<close> returns length \<open>|s|\<close> and
  window \<open>|s|\<close>, and \<open>spread_RO(s, s)\<close> is 1; in particular for "abc".
\<close>

theorem spread_RO_identity:
  assumes "s \<noteq> []"
  shows "lcs_sw s s = (int (length s), int (length s)) \<and> spread_RO s s = Inr 1"
proof -
  have "(of_int (3 * int (length s)) :: rat) = of_int (int (length s) + int (length s) + int (length s))"
    by simp
  moreover have "(of_int (int (length s) + int (length s) + int (length s)) :: rat) \<noteq> 0"
    using assms by (simp add: add_nonneg_eq_0_iff)
  ultimately show ?thesis
    using spread_RO_value[of s s] assms by (simp add: lcs_sw_same)
qed

theorem spread_RO_identity_witness:
  "''abc'' \<noteq> [] \<and> lcs_sw ''abc'' ''abc'' = (3, 3) \<and> spread_RO ''abc'' ''abc'' = Inr 1"
  using spread_RO_identity[of "''abc''"] by simp



text \<open>
  C5: \<open>search(q, d, n)\<close> is claimed to return, for every query, dictionary and
  \<open>n\<close>, the \<open>min(n, |d|)\<close> best-scoring entries in non-increasing order of score.
  When the query normalises to the empty string and a key of the dictionary does
  so too, the score of that key divides zero by zero and \<open>search\<close> raises
  instead of returning.  In every other case \<open>search\<close> returns (lemma
  \<open>search_succeeds\<close>), and what it returns has \<open>min(n, |d|)\<close> entries for
  \<open>n \<ge> 0\<close>, none for \<open>n \<le> 0\<close>, in non-increasing order of score and
  ahead of every entry left out (lemmas \<open>search_ranked\<close> and
  \<open>most_common_top\<close>).
\<close>

theorem search_empty_key_raises:
  "search lower [] [([], v)] 1 = Inl ZeroDivisionError"
proof -
  have "preProcess lower [] = []" by (simp add: preProcess_map)
  moreover have "spread_RO ([] :: ustring) [] = Inl ZeroDivisionError" by code_simp
  ultimately show ?thesis by (simp add: search_def)
qed

text \<open>
  C9: \<open>ratioTest(a, b)\<close> is claimed to return \<open>2 L / (|a| + |b|)\<close> with \<open>L\<close> the
  length of a longest common subsequence, and \<open>bestRatio\<close> the maximum of that
  ratio over the pairs of the two lists.  The matching blocks of \<open>difflib\<close> are
  not a longest common subsequence: for "caxb" and "abc" the first block found
  is the "c", nothing is left on either side of it, and the ratio is \<open>2 / 7\<close>,
  although "ab" is a common subsequence of length 2, which would give \<open>4 / 7\<close>.
  The same pair shows it for \<open>bestRatio\<close>, which compares the word of the second
  list against the word of the first.
\<close>

theorem ratioTest_not_lcs_ratio:
  "ratioTest ''caxb'' ''abc'' = 2 / 7 \<and>
   bestRatio [''abc''] [''caxb''] = 2 / 7 \<and>
   subseq ''ab'' ''caxb'' \<and> subseq ''ab'' ''abc'' \<and>
   fst (lcs_sw ''caxb'' ''abc'') = 2 \<and>
   (2 * of_int (fst (lcs_sw ''caxb'' ''abc'')) / of_nat (length ''caxb'' + length ''abc'') :: rat) = 4 / 7"
  by code_simp

text \<open>
  C3: in the match case, when the left neighbour \<open>lengths[i+1][j]\<close> and the upper
  neighbour \<open>lengths[i][j+1]\<close> both have the length of the candidate, the new
  entry \<open>lengths[i+1][j+1]\<close> is the result of the two comparisons: the narrower of
  the two neighbours, then the narrower of that winner and the candidate.  The
  source makes only the first comparison in this branch; the second never
  changes the result, because in every table that \<open>lcs_sw\<close> builds the left
  neighbour of such an entry is no wider than the candidate (lemma
  \<open>left_not_wider\<close>).  So the entry has the smallest span of the three.
\<close>

theorem double_tie_two_stage:
  assumes "i < length s1" "j < length s2" "s1 ! i = s2 ! j"
    and "fst (table s1 s2 ! Suc i ! j) = fst (candidate i (table s1 s2 ! i ! j))"
    and "fst (table s1 s2 ! i ! Suc j) = fst (candidate i (table s1 s2 ! i ! j))"
  shows "table s1 s2 ! Suc i ! Suc j =
           two_stage (candidate i (table s1 s2 ! i ! j))
             (table s1 s2 ! Suc i ! j) (table s1 s2 ! i ! Suc j) \<and>
         cell_span (table s1 s2 ! Suc i ! Suc j) =
           min (cell_span (candidate i (table s1 s2 ! i ! j)))
             (min (cell_span (table s1 s2 ! Suc i ! j)) (cell_span (table s1 s2 ! i ! Suc j)))"
proof -
  let ?g = "cellf s1 s2 i j" and ?r = "cellf s1 s2 (Suc i) j" and ?d = "cellf s1 s2 i (Suc j)"
  have tg: "table s1 s2 ! i ! j = ?g" and tr: "table s1 s2 ! Suc i ! j = ?r"
    and td: "table s1 s2 ! i ! Suc j = ?d"
    and tx: "table s1 s2 ! Suc i ! Suc j = cellf s1 s2 (Suc i) (Suc j)"
    using assms(1,2) by (simp_all add: table_nth)
  have fc: "fst (candidate i ?g) = fst ?g + 1"
    by (cases ?g) (simp add: candidate_def)
  have tie: "fst ?r = fst ?g + 1" "fst ?d = fst ?g + 1"
    using assms(4,5) by (simp_all add: tg tr td fc)
  have x: "cellf s1 s2 (Suc i) (Suc j) = narrower ?r ?d"
    using assms(3) new_cell_double_tie[OF tie] by simp
  have "cell_span ?r \<le> cell_span (candidate i ?g)"
    by (rule left_not_wider[OF cellf_ok cellf_down_ok tie(1)]) (use assms in simp_all)
  then have le: "cell_span (narrower ?r ?d) \<le> cell_span (candidate i ?g)"
    by (simp add: narrower_def)
  have "two_stage (candidate i ?g) ?r ?d = narrower ?r ?d"
    using le by (simp add: two_stage_def narrower_def[of "candidate i ?g"])
  moreover have "cell_span (narrower ?r ?d) = min (cell_span (candidate i ?g)) (min (cell_span ?r) (cell_span ?d))"
    using le by (auto simp: narrower_def min_def)
  ultimately show ?thesis by (simp add: tg tr td tx x del: cellf.simps)
qed

theorem double_tie_two_stage_witness:
  "(2::nat) < length ''baa'' \<and> (3::nat) < length ''aaba'' \<and> ''baa'' ! 2 = ''aaba'' ! 3 \<and>
   table ''baa'' ''aaba'' ! 2 ! 3 = (1, 0, 1) \<and> candidate 2 (1, 0, 1) = (2, 0, 3) \<and>
   table ''baa'' ''aaba'' ! 3 ! 3 = (2, 1, 3) \<and>
   table ''baa'' ''aaba'' ! 2 ! 4 = (2, 0, 2) \<and>
   table ''baa'' ''aaba'' ! 3 ! 4 = two_stage (2, 0, 3) (2, 1, 3) (2, 0, 2) \<and>
   two_stage (2, 0, 3) (2, 1, 3) (2, 0, 2) = (2, 0, 2)"
proof -
  have ev: "table ''baa'' ''aaba'' ! 2 ! 3 = (1, 0, 1)"
    "table ''baa'' ''aaba'' ! 3 ! 3 = (2, 1, 3)"
    "table ''baa'' ''aaba'' ! 2 ! 4 = (2, 0, 2)"
    "candidate 2 (1, 0, 1) = (2, 0, 3)"
    "two_stage (2, 0, 3) (2, 1, 3) (2, 0, 2) = (2, 0, 2)"
    "''baa'' ! 2 = ''aaba'' ! 3"
    by code_simp+
  have s: "Suc 2 = 3" "Suc 3 = 4" by simp_all
  show ?thesis
    using double_tie_two_stage[of 2 "''baa''" 3 "''aaba''"] ev
    by (simp add: s)
qed

end
